theory Spec2Isabelle
  imports Main "HOL-Library.Word" "HOL-Library.Multiset"
begin

unbundle bit_operations_syntax

section \<open>Integer factorisation: the functions of \<^verbatim>\<open>src/math/prime.cc\<close>\<close>

text \<open>
  The C++ type \<^verbatim>\<open>ull\<close> (\<^verbatim>\<open>unsigned long long\<close>) is a 64-bit word: \<open>+\<close>, \<open>-\<close> and
  \<open>*\<close> wrap around. The 128-bit intermediate of \<^verbatim>\<open>modmul\<close> is a 128-bit word.
  The only run-time failure of the code is an integer division (or remainder) by zero;
  it is a value of the type \<open>error\<close>, and every function that can reach one returns
  \<open>error + 'a\<close>. The loop of \<^verbatim>\<open>pollard\<close> has no termination argument in the source, so
  \<^verbatim>\<open>pollard\<close> and \<^verbatim>\<open>factor\<close> return an \<open>option\<close>, where \<open>None\<close> stands for a run that
  never returns.
\<close>

type_synonym ull = "64 word"
type_synonym u128 = "128 word"

datatype error = DivByZero

subsection \<open>\<^verbatim>\<open>modmul\<close> and \<^verbatim>\<open>modpow\<close>\<close>

text \<open>
  \<^verbatim>\<open>
  ull modmul(ull a, ull b, ull M) {
      return (__uint128_t)a * b % M;
  }
  \<close>
  The cast widens \<^verbatim>\<open>a\<close>; \<^verbatim>\<open>b\<close> and \<^verbatim>\<open>M\<close> are promoted to 128 bits by the usual
  arithmetic conversions, and the result is converted back to 64 bits.
\<close>

definition modmul :: "ull \<Rightarrow> ull \<Rightarrow> ull \<Rightarrow> error + ull" where
  "modmul a b M =
     (if M = 0 then Inl DivByZero
      else Inr (ucast (((ucast a :: u128) * (ucast b :: u128)) mod (ucast M :: u128))))"

text \<open>
  \<^verbatim>\<open>
  ull modpow(ull b, ull e, ull mod) {
      ull ans = 1;
      for (; e; b = modmul(b, b, mod), e /= 2)
          if (e & 1) ans = modmul(ans, b, mod);
      return ans;
  }
  \<close>
  \<open>modpow_loop\<close> is the \<^verbatim>\<open>for\<close> loop on the variables \<^verbatim>\<open>ans\<close>, \<^verbatim>\<open>b\<close> and \<^verbatim>\<open>e\<close>.
\<close>

function modpow_loop :: "ull \<Rightarrow> ull \<Rightarrow> ull \<Rightarrow> ull \<Rightarrow> error + ull" where
  "modpow_loop ans b e m =
     (if e = 0 then Inr ans
      else case (if e AND 1 \<noteq> 0 then modmul ans b m else Inr ans) of
             Inl err \<Rightarrow> Inl err
           | Inr ans' \<Rightarrow>
               (case modmul b b m of
                  Inl err \<Rightarrow> Inl err
                | Inr b' \<Rightarrow> modpow_loop ans' b' (e div 2) m))"
  by pat_completeness auto
termination
proof (relation "measure (\<lambda>(ans, b, e, m). unat e)")
  show "wf (measure (\<lambda>(ans :: ull, b :: ull, e :: ull, m :: ull). unat e))"
    by simp
next
  fix ans b e m :: ull and x2 x2a :: ull
  assume "e \<noteq> 0"
  then have "unat e \<noteq> 0"
    by (simp add: unat_eq_0)
  then have "unat e div 2 < unat e"
    by simp
  then show "((x2, x2a, e div 2, m), (ans, b, e, m)) \<in> measure (\<lambda>(ans, b, e, m). unat e)"
    by (simp add: unat_div)
qed

declare modpow_loop.simps [simp del]

definition modpow :: "ull \<Rightarrow> ull \<Rightarrow> ull \<Rightarrow> error + ull" where
  "modpow b e m = modpow_loop 1 b e m"

subsection \<open>\<^verbatim>\<open>miller_rabin\<close>\<close>

text \<open>
  \<^verbatim>\<open>__builtin_ctzll(x)\<close> counts the trailing zero bits of \<^verbatim>\<open>x\<close>. The builtin is
  undefined at 0; \<^verbatim>\<open>miller_rabin\<close> calls it on \<^verbatim>\<open>n - 1\<close> with \<^verbatim>\<open>n \<ge> 2\<close> only. The
  model gives 64 there, the width of the operand.
\<close>

function ctzll :: "ull \<Rightarrow> nat" where
  "ctzll x = (if x = 0 then 64 else if x AND 1 \<noteq> 0 then 0 else Suc (ctzll (drop_bit 1 x)))"
  by pat_completeness auto
termination
proof (relation "measure unat")
  show "wf (measure (unat :: ull \<Rightarrow> nat))"
    by simp
next
  fix x :: ull
  assume "x \<noteq> 0"
  then have "unat x \<noteq> 0"
    by (simp add: unat_eq_0)
  then have "unat x div 2 < unat x"
    by simp
  then show "(drop_bit 1 x, x) \<in> measure unat"
    by (simp add: drop_bit_eq_div unat_div)
qed

declare ctzll.simps [simp del]

text \<open>
  \<^verbatim>\<open>
  bool miller_rabin(ull n) {
      if (n < 2 || n % 6 % 4 != 1) return (n | 1) == 3;
      ull A[] = {2, 325, 9375, 28178, 450775, 9780504, 1795265022},
          s = __builtin_ctzll(n-1), d = n >> s;
      for (ull a : A) {
          ull p = modpow(a%n, d, n), i = s;
          while (p != 1 && p != n - 1 && a % n && i--)
              p = modmul(p, p, n);
          if (p != n-1 && i != s) return 0;
      }
      return 1;
  }
  \<close>
  \<open>mr_while\<close> is the inner \<^verbatim>\<open>while\<close> loop on \<^verbatim>\<open>p\<close> and \<^verbatim>\<open>i\<close>; it returns their final
  values. The condition is evaluated left to right and stops at the first false
  conjunct, so \<^verbatim>\<open>i--\<close> runs only when the three tests before it hold; when it reads
  \<^verbatim>\<open>i = 0\<close> the loop ends and \<^verbatim>\<open>i\<close> has wrapped to \<open>2\<^sup>6\<^sup>4 - 1\<close>. \<open>mr_witness\<close> is one
  pass of the \<^verbatim>\<open>for\<close> body: \<open>False\<close> when the body executes \<^verbatim>\<open>return 0\<close>. \<open>mr_for\<close> is
  the \<^verbatim>\<open>for\<close> loop over the rest of the array. The remainder \<^verbatim>\<open>a % n\<close> is taken past
  the guard \<^verbatim>\<open>n < 2\<close>, so its divisor is not zero.
\<close>

definition witnesses :: "ull list" where
  "witnesses = [2, 325, 9375, 28178, 450775, 9780504, 1795265022]"

function mr_while :: "ull \<Rightarrow> ull \<Rightarrow> ull \<Rightarrow> ull \<Rightarrow> error + (ull \<times> ull)" where
  "mr_while n a p i =
     (if p \<noteq> 1 \<and> p \<noteq> n - 1 \<and> a mod n \<noteq> 0 then
        (if i \<noteq> 0 then
           (case modmul p p n of
              Inl err \<Rightarrow> Inl err
            | Inr p' \<Rightarrow> mr_while n a p' (i - 1))
         else Inr (p, i - 1))
      else Inr (p, i))"
  by pat_completeness auto
termination
proof (relation "measure (\<lambda>(n, a, p, i). unat i)")
  show "wf (measure (\<lambda>(n :: ull, a :: ull, p :: ull, i :: ull). unat i))"
    by simp
next
  fix n a p i x2 :: ull
  assume "i \<noteq> 0"
  then have "unat (i - 1) < unat i"
    by (rule measure_unat)
  then show "((n, a, x2, i - 1), (n, a, p, i)) \<in> measure (\<lambda>(n, a, p, i). unat i)"
    by simp
qed

declare mr_while.simps [simp del]

definition mr_witness :: "ull \<Rightarrow> ull \<Rightarrow> ull \<Rightarrow> ull \<Rightarrow> error + bool" where
  "mr_witness n s d a =
     (case modpow (a mod n) d n of
        Inl err \<Rightarrow> Inl err
      | Inr p \<Rightarrow>
          (case mr_while n a p s of
             Inl err \<Rightarrow> Inl err
           | Inr (p', i) \<Rightarrow> Inr (\<not> (p' \<noteq> n - 1 \<and> i \<noteq> s))))"

fun mr_for :: "ull \<Rightarrow> ull \<Rightarrow> ull \<Rightarrow> ull list \<Rightarrow> error + bool" where
  "mr_for n s d [] = Inr True"
| "mr_for n s d (a # as) =
     (case mr_witness n s d a of
        Inl err \<Rightarrow> Inl err
      | Inr ok \<Rightarrow> if ok then mr_for n s d as else Inr False)"

definition miller_rabin :: "ull \<Rightarrow> error + bool" where
  "miller_rabin n =
     (if n < 2 \<or> n mod 6 mod 4 \<noteq> 1 then Inr ((n OR 1) = 3)
      else let s = ctzll (n - 1); d = drop_bit s n
           in mr_for n (of_nat s) d witnesses)"

subsection \<open>\<^verbatim>\<open>pollard\<close>\<close>

text \<open>
  \<^verbatim>\<open>__gcd\<close> is the Euclidean loop of the C++ standard library:
  \<^verbatim>\<open>while (n != 0) { t = m % n; m = n; n = t; } return m;\<close>
\<close>

function gcd_ull :: "ull \<Rightarrow> ull \<Rightarrow> ull" where
  "gcd_ull m n = (if n = 0 then m else gcd_ull n (m mod n))"
  by pat_completeness auto
termination
proof (relation "measure (\<lambda>(m, n). unat n)")
  show "wf (measure (\<lambda>(m :: ull, n :: ull). unat n))"
    by simp
next
  fix m n :: ull
  assume "n \<noteq> 0"
  then have "unat m mod unat n < unat n"
    by (simp add: unat_gt_0)
  then show "((n, m mod n), (m, n)) \<in> measure (\<lambda>(m, n). unat n)"
    by (simp add: unat_mod)
qed

declare gcd_ull.simps [simp del]

text \<open>
  \<^verbatim>\<open>
  ull pollard(ull n) {
      auto f = [n](ull x) { return modmul(x, x, n) + 1; };
      ull x = 0, y = 0, t = 30, prd = 2, i = 1, q;
      while (t++ % 40 || __gcd(prd, n) == 1) {
          if (x == y) x = ++i, y = f(x);
          if ((q = modmul(prd, max(x,y) - min(x,y), n))) prd = q;
          x = f(x), y = f(f(y));
      }
      return __gcd(prd, n);
  }
  \<close>
  The local variables that live across iterations are the record \<open>pstate\<close>.
  \<open>pollard_body\<close> is one execution of the loop body, \<open>pollard_loop\<close> the \<^verbatim>\<open>while\<close>
  loop: the condition reads \<^verbatim>\<open>t\<close>, increments it, and tests the gcd only when the old
  \<^verbatim>\<open>t\<close> is a multiple of 40. Nothing in the source bounds the number of iterations.
\<close>

record pstate =
  px :: ull
  py :: ull
  pt :: ull
  prd :: ull
  pi :: ull

definition pollard_f :: "ull \<Rightarrow> ull \<Rightarrow> error + ull" where
  "pollard_f n x = (case modmul x x n of Inl err \<Rightarrow> Inl err | Inr v \<Rightarrow> Inr (v + 1))"

definition pollard_restart :: "ull \<Rightarrow> pstate \<Rightarrow> error + pstate" where
  "pollard_restart n st =
     (if px st = py st then
        (let i' = pi st + 1 in
         case pollard_f n i' of
           Inl err \<Rightarrow> Inl err
         | Inr y' \<Rightarrow> Inr (st\<lparr>px := i', py := y', pi := i'\<rparr>))
      else Inr st)"

definition pollard_accumulate :: "ull \<Rightarrow> pstate \<Rightarrow> error + pstate" where
  "pollard_accumulate n st =
     (case modmul (prd st) (max (px st) (py st) - min (px st) (py st)) n of
        Inl err \<Rightarrow> Inl err
      | Inr q \<Rightarrow> Inr (if q \<noteq> 0 then st\<lparr>prd := q\<rparr> else st))"

definition pollard_advance :: "ull \<Rightarrow> pstate \<Rightarrow> error + pstate" where
  "pollard_advance n st =
     (case pollard_f n (px st) of
        Inl err \<Rightarrow> Inl err
      | Inr x' \<Rightarrow>
          (case pollard_f n (py st) of
             Inl err \<Rightarrow> Inl err
           | Inr y1 \<Rightarrow>
               (case pollard_f n y1 of
                  Inl err \<Rightarrow> Inl err
                | Inr y' \<Rightarrow> Inr (st\<lparr>px := x', py := y'\<rparr>))))"

definition pollard_body :: "ull \<Rightarrow> pstate \<Rightarrow> error + pstate" where
  "pollard_body n st =
     (case pollard_restart n st of
        Inl err \<Rightarrow> Inl err
      | Inr st1 \<Rightarrow>
          (case pollard_accumulate n st1 of
             Inl err \<Rightarrow> Inl err
           | Inr st2 \<Rightarrow> pollard_advance n st2))"

partial_function (option) pollard_loop :: "ull \<Rightarrow> pstate \<Rightarrow> (error + ull) option" where
  "pollard_loop n st =
     (let t0 = pt st; st' = st\<lparr>pt := t0 + 1\<rparr> in
      if t0 mod 40 \<noteq> 0 \<or> gcd_ull (prd st') n = 1 then
        (case pollard_body n st' of
           Inl err \<Rightarrow> Some (Inl err)
         | Inr st'' \<Rightarrow> pollard_loop n st'')
      else Some (Inr (gcd_ull (prd st') n)))"

declare pollard_loop.simps [code]

definition pollard_init :: pstate where
  "pollard_init = \<lparr>px = 0, py = 0, pt = 30, prd = 2, pi = 1\<rparr>"

definition pollard :: "ull \<Rightarrow> (error + ull) option" where
  "pollard n = pollard_loop n pollard_init"

subsection \<open>\<^verbatim>\<open>factor\<close>\<close>

text \<open>
  \<^verbatim>\<open>
  vector<ull> factor(ull n) {
      if (n == 1) return {};
      if (miller_rabin(n)) return {n};
      ull x = pollard(n);
      auto l = factor(x), r = factor(n / x);
      l.insert(l.end(), r.begin(), r.end());
      return l;
  }
  \<close>
  The vector is a list. \<^verbatim>\<open>l\<close> is initialised before \<^verbatim>\<open>r\<close>, so \<^verbatim>\<open>factor(x)\<close> runs
  first and the division \<^verbatim>\<open>n / x\<close> after it.
\<close>

partial_function (option) factor :: "ull \<Rightarrow> (error + ull list) option" where
  "factor n =
     (if n = 1 then Some (Inr [])
      else case miller_rabin n of
        Inl err \<Rightarrow> Some (Inl err)
      | Inr is_prime \<Rightarrow>
          if is_prime then Some (Inr [n])
          else Option.bind (pollard n) (\<lambda>rx. case rx of
            Inl err \<Rightarrow> Some (Inl err)
          | Inr x \<Rightarrow>
              Option.bind (factor x) (\<lambda>rl. case rl of
                Inl err \<Rightarrow> Some (Inl err)
              | Inr l \<Rightarrow>
                  if x = 0 then Some (Inl DivByZero)
                  else Option.bind (factor (n div x)) (\<lambda>rr. case rr of
                    Inl err \<Rightarrow> Some (Inl err)
                  | Inr r \<Rightarrow> Some (Inr (l @ r))))))"

declare factor.simps [code]

subsection \<open>Auxiliary notions for the statements\<close>

text \<open>
  The invariant of the loop of \<^verbatim>\<open>pollard\<close>: the accumulator \<^verbatim>\<open>prd\<close> is a non-zero
  residue below \<^verbatim>\<open>n\<close>.
\<close>

definition prd_ok :: "ull \<Rightarrow> pstate \<Rightarrow> bool" where
  "prd_ok n st = (prd st \<noteq> 0 \<and> prd st < n)"

text \<open>
  A composite number, by trial division: some \<open>d\<close> with \<open>2 \<le> d < n\<close> divides \<open>n\<close>.
\<close>

definition composite :: "nat \<Rightarrow> bool" where
  "composite n = (\<exists>d \<in> {2..<n}. d dvd n)"


text \<open>
  The recursion of \<open>factor\<close>. \<open>factor_calls n\<close> lists the arguments of the recursive
  calls that the body of \<^verbatim>\<open>factor(n)\<close> makes, in order: none when it returns at one of
  the first two tests or \<^verbatim>\<open>pollard\<close> does not return a value; \<^verbatim>\<open>factor(x)\<close>; and
  \<^verbatim>\<open>factor(n / x)\<close> once \<^verbatim>\<open>factor(x)\<close> has returned. \<open>call_chain\<close> holds of a sequence
  of arguments where each call is made by the body of the one before: the frames that
  are on the stack at the same time. The recursion depth of \<^verbatim>\<open>factor(n)\<close> is the length
  of the longest call chain that starts with \<open>n\<close>.
\<close>

definition factor_calls :: "ull \<Rightarrow> ull list" where
  "factor_calls n =
     (if n = 1 then []
      else case miller_rabin n of
        Inl err \<Rightarrow> []
      | Inr is_prime \<Rightarrow>
          if is_prime then []
          else (case pollard n of
                  None \<Rightarrow> []
                | Some (Inl err) \<Rightarrow> []
                | Some (Inr x) \<Rightarrow>
                    (case factor x of
                       Some (Inr l) \<Rightarrow> if x = 0 then [x] else [x, n div x]
                     | _ \<Rightarrow> [x])))"

fun call_chain :: "ull list \<Rightarrow> bool" where
  "call_chain [] = True"
| "call_chain [n] = True"
| "call_chain (n # m # ns) = (m \<in> set (factor_calls n) \<and> call_chain (m # ns))"





section \<open>Properties\<close>

subsection \<open>Word arithmetic behind \<open>modmul\<close>\<close>

lemma unat_ucast_up: "unat (ucast (a :: ull) :: u128) = unat a"
proof -
  have "unat a < 2 ^ 64"
    using unsigned_less [of a] by simp
  then have "unat a < 2 ^ 128"
    by simp
  then show ?thesis
    by (simp add: unsigned_ucast_eq take_bit_nat_eq_self)
qed

lemma unat_ucast_down:
  assumes "unat (w :: u128) < 2 ^ 64"
  shows "unat (ucast w :: ull) = unat w"
  using assms by (simp add: unsigned_ucast_eq take_bit_nat_eq_self)

text \<open>The product of two 64-bit values fits in 128 bits: the multiplication does not wrap.\<close>

lemma unat_mul_u128: "unat ((ucast (a :: ull) :: u128) * ucast (b :: ull)) = unat a * unat b"
proof -
  have "unat a < 2 ^ 64" "unat b < 2 ^ 64"
    using unsigned_less [of a] unsigned_less [of b] by simp_all
  then have "unat a * unat b < 2 ^ 64 * 2 ^ 64"
    by (intro mult_strict_mono) simp_all
  then have "unat a * unat b < 2 ^ 128"
    by simp
  then have "unat ((ucast a :: u128) * ucast b) = unat (ucast a :: u128) * unat (ucast b :: u128)"
    using unat_mult_lem [of "ucast a :: u128" "ucast b"] by (simp add: unat_ucast_up)
  then show ?thesis
    by (simp add: unat_ucast_up)
qed

lemma modmul_Inr:
  assumes "M \<noteq> 0"
  shows "\<exists>r. modmul a b M = Inr r \<and> unat r = (unat a * unat b) mod unat M"
proof -
  let ?w = "((ucast a :: u128) * ucast b) mod ucast M"
  let ?r = "(unat a * unat b) mod unat M"
  have M0: "0 < unat M"
    using assms by (simp add: unat_gt_0)
  have "?r < unat M"
    using M0 by simp
  also have "unat M < 2 ^ 64"
    using unsigned_less [of M] by simp
  finally have r64: "?r < 2 ^ 64" .
  have w: "unat ?w = ?r"
    by (simp add: unat_mod unat_mul_u128 unat_ucast_up)
  then have "unat (ucast ?w :: ull) = ?r"
    using r64 unat_ucast_down [of ?w] by simp
  then show ?thesis
    using assms by (simp add: modmul_def)
qed

lemma modmul_zero: "modmul a b 0 = Inl DivByZero"
  by (simp add: modmul_def)

subsection \<open>\<open>modpow\<close> computes the power\<close>

lemma and1_odd: "((e :: ull) AND 1 \<noteq> 0) = odd (unat e)"
proof -
  have "(e AND 1 = 0) = (unat (e mod 2) = 0)"
    by (simp add: and_one_eq unat_eq_0)
  also have "unat (e mod 2) = unat e mod 2"
    by (simp add: unat_mod)
  finally show ?thesis
    by (simp add: even_iff_mod_2_eq_zero)
qed

lemma pow_split_nat: "(b :: nat) ^ e = b ^ (e mod 2) * (b * b) ^ (e div 2)"
proof -
  have "b ^ e = b ^ (e mod 2 + 2 * (e div 2))"
    by simp
  also have "\<dots> = b ^ (e mod 2) * (b ^ 2) ^ (e div 2)"
    by (simp only: power_add power_mult)
  finally show ?thesis
    by (simp add: power2_eq_square)
qed

lemma pow_step_nat:
  fixes a a' b e M :: nat
  assumes "a' mod M = (a * b ^ (e mod 2)) mod M"
  shows "(a' * ((b * b) mod M) ^ (e div 2)) mod M = (a * b ^ e) mod M"
proof -
  have "(a' * ((b * b) mod M) ^ (e div 2)) mod M
        = ((a' mod M) * (((b * b) mod M) ^ (e div 2) mod M)) mod M"
    by (simp add: mod_mult_eq)
  also have "\<dots> = (((a * b ^ (e mod 2)) mod M) * ((b * b) ^ (e div 2) mod M)) mod M"
    using assms by (simp add: power_mod)
  also have "\<dots> = ((a * b ^ (e mod 2)) * (b * b) ^ (e div 2)) mod M"
    by (simp add: mod_mult_eq)
  also have "\<dots> = (a * b ^ e) mod M"
    using pow_split_nat [of b e] by (simp add: mult.assoc)
  finally show ?thesis .
qed

lemma modpow_loop_Inr:
  assumes "m \<noteq> 0"
  shows "\<exists>r. modpow_loop ans b e m = Inr r
           \<and> unat r mod unat m = (unat ans * unat b ^ unat e) mod unat m
           \<and> (e \<noteq> 0 \<longrightarrow> unat r < unat m) \<and> (e = 0 \<longrightarrow> r = ans)"
  using assms
proof (induction ans b e m rule: modpow_loop.induct)
  case (1 ans b e m)
  have M0: "0 < unat m"
    using \<open>m \<noteq> 0\<close> by (simp add: unat_gt_0)
  show ?case
  proof (cases "e = 0")
    case True
    then show ?thesis by (subst modpow_loop.simps) simp
  next
    case False
    obtain b' where b': "modmul b b m = Inr b'" "unat b' = (unat b * unat b) mod unat m"
      using modmul_Inr [OF \<open>m \<noteq> 0\<close>] by blast
    obtain ans' where ans': "(if e AND 1 \<noteq> 0 then modmul ans b m else Inr ans) = Inr ans'"
      and ans'_val: "unat ans' = (if e AND 1 \<noteq> 0 then (unat ans * unat b) mod unat m else unat ans)"
      using modmul_Inr [OF \<open>m \<noteq> 0\<close>, of ans b] by (cases "e AND 1 \<noteq> 0") auto
    from "1.IH" [OF False ans' b'(1) \<open>m \<noteq> 0\<close>]
    obtain r where r: "modpow_loop ans' b' (e div 2) m = Inr r"
      "unat r mod unat m = (unat ans' * unat b' ^ unat (e div 2)) mod unat m"
      "e div 2 \<noteq> 0 \<longrightarrow> unat r < unat m" "e div 2 = 0 \<longrightarrow> r = ans'"
      by blast
    have eq: "modpow_loop ans b e m = Inr r"
      using False ans' b'(1) r(1) by (subst modpow_loop.simps) simp
    have half: "unat (e div 2) = unat e div 2"
      by (simp add: unat_div)
    have "unat ans' mod unat m = (unat ans * unat b ^ (unat e mod 2)) mod unat m"
      using ans'_val by (auto simp: and1_odd odd_iff_mod_2_eq_one even_iff_mod_2_eq_zero)
    then have val: "unat r mod unat m = (unat ans * unat b ^ unat e) mod unat m"
      using r(2) b'(2) half pow_step_nat [of "unat ans'" "unat m" "unat ans" "unat b" "unat e"]
      by simp
    have bound: "unat r < unat m"
    proof (cases "e div 2 = 0")
      case True
      then have "unat e div 2 = 0"
        using half by simp
      moreover have "unat e \<noteq> 0"
        using False by (simp add: unat_eq_0)
      ultimately have "odd (unat e)"
        by presburger
      then have "unat ans' < unat m"
        using ans'_val M0 by (simp add: and1_odd)
      then show ?thesis
        using r(4) True by simp
    next
      case False
      then show ?thesis
        using r(3) by simp
    qed
    show ?thesis
      using eq val bound False by simp
  qed
qed

lemma modpow_Inr:
  assumes "m \<noteq> 0"
  shows "\<exists>r. modpow b e m = Inr r
           \<and> (if e = 0 then r = 1 else unat r = unat b ^ unat e mod unat m)"
proof -
  obtain r where r: "modpow_loop 1 b e m = Inr r"
      "unat r mod unat m = (unat (1 :: ull) * unat b ^ unat e) mod unat m"
      "e \<noteq> 0 \<longrightarrow> unat r < unat m" "e = 0 \<longrightarrow> r = 1"
    using modpow_loop_Inr [OF assms, of 1 b e] by blast
  show ?thesis
    using r by (auto simp: modpow_def)
qed

subsection \<open>The divisor returned by \<open>pollard\<close>\<close>

lemma unat_gcd_ull: "unat (gcd_ull m n) = gcd (unat m) (unat n)"
proof (induction m n rule: gcd_ull.induct)
  case (1 m n)
  show ?case
  proof (cases "n = 0")
    case True
    then show ?thesis by (subst gcd_ull.simps) simp
  next
    case False
    then have "unat n \<noteq> 0"
      by (simp add: unat_eq_0)
    have "unat (gcd_ull m n) = unat (gcd_ull n (m mod n))"
      using False by (subst gcd_ull.simps) simp
    also have "\<dots> = gcd (unat n) (unat m mod unat n)"
      using "1.IH" [OF False] by (simp add: unat_mod)
    also have "\<dots> = gcd (unat m) (unat n)"
      by (metis gcd_red_nat)
    finally show ?thesis .
  qed
qed

lemma pollard_f_Inr: "n \<noteq> 0 \<Longrightarrow> \<exists>v. pollard_f n x = Inr v"
  using modmul_Inr [of n x x] by (auto simp: pollard_f_def)

lemma pollard_restart_Inr:
  assumes "n \<noteq> 0"
  shows "\<exists>st'. pollard_restart n st = Inr st' \<and> prd st' = prd st"
  using pollard_f_Inr [OF assms, of "pi st + 1"]
  by (auto simp: pollard_restart_def Let_def)

lemma pollard_accumulate_Inr:
  assumes "n \<noteq> 0" "prd_ok n st"
  shows "\<exists>st'. pollard_accumulate n st = Inr st' \<and> prd_ok n st'"
proof -
  obtain q where q: "modmul (prd st) (max (px st) (py st) - min (px st) (py st)) n = Inr q"
    "unat q = (unat (prd st) * unat (max (px st) (py st) - min (px st) (py st))) mod unat n"
    using modmul_Inr [OF assms(1)] by blast
  have "0 < unat n"
    using assms(1) by (simp add: unat_gt_0)
  then have "unat q < unat n"
    using q(2) by simp
  then have "q < n"
    by (simp add: word_less_nat_alt)
  then show ?thesis
    using q(1) assms(2) by (simp add: pollard_accumulate_def prd_ok_def)
qed

lemma pollard_advance_Inr:
  assumes "n \<noteq> 0"
  shows "\<exists>st'. pollard_advance n st = Inr st' \<and> prd st' = prd st"
proof -
  obtain x' where x': "pollard_f n (px st) = Inr x'"
    using pollard_f_Inr [OF assms] by blast
  obtain y1 where y1: "pollard_f n (py st) = Inr y1"
    using pollard_f_Inr [OF assms] by blast
  obtain y' where y': "pollard_f n y1 = Inr y'"
    using pollard_f_Inr [OF assms] by blast
  show ?thesis
    using x' y1 y' by (simp add: pollard_advance_def)
qed

lemma pollard_body_Inr:
  assumes "n \<noteq> 0" "prd_ok n st"
  shows "\<exists>st'. pollard_body n st = Inr st' \<and> prd_ok n st'"
proof -
  obtain st1 where st1: "pollard_restart n st = Inr st1" "prd st1 = prd st"
    using pollard_restart_Inr [OF assms(1)] by blast
  then have "prd_ok n st1"
    using assms(2) by (simp add: prd_ok_def)
  then obtain st2 where st2: "pollard_accumulate n st1 = Inr st2" "prd_ok n st2"
    using pollard_accumulate_Inr [OF assms(1)] by blast
  obtain st3 where st3: "pollard_advance n st2 = Inr st3" "prd st3 = prd st2"
    using pollard_advance_Inr [OF assms(1)] by blast
  then have "prd_ok n st3"
    using st2(2) by (simp add: prd_ok_def)
  then show ?thesis
    using st1(1) st2(1) st3(1) by (simp add: pollard_body_def)
qed

lemma gcd_exit:
  assumes "prd_ok n st" "gcd_ull (prd st) n \<noteq> 1"
  shows "unat (gcd_ull (prd st) n) dvd unat n \<and> 1 < unat (gcd_ull (prd st) n)
         \<and> unat (gcd_ull (prd st) n) < unat n"
proof -
  let ?g = "gcd (unat (prd st)) (unat n)"
  have P: "0 < unat (prd st)" "unat (prd st) < unat n"
    using assms(1) by (simp_all add: prd_ok_def unat_gt_0 word_less_nat_alt)
  have g: "unat (gcd_ull (prd st) n) = ?g"
    by (rule unat_gcd_ull)
  have "?g \<noteq> 1"
    using assms(2) g by (metis unat_1 word_unat_eq_iff)
  moreover have "0 < ?g"
    using P by simp
  ultimately have "1 < ?g"
    by linarith
  moreover have "?g \<le> unat (prd st)"
    using P(1) by (intro dvd_imp_le) simp_all
  ultimately show ?thesis
    using P(2) g by simp
qed

lemma pollard_loop_divisor:
  assumes "pollard_loop n st = Some r" "n \<noteq> 0" "prd_ok n st"
  shows "\<exists>d. r = Inr d \<and> unat d dvd unat n \<and> 1 < unat d \<and> unat d < unat n"
  using assms
proof (induction n st r rule: pollard_loop.raw_induct [rotated 1, consumes 1, case_names step])
  case (step loop n st r)
  let ?st' = "st\<lparr>pt := pt st + 1\<rparr>"
  have ok': "prd_ok n ?st'"
    using \<open>prd_ok n st\<close> by (simp add: prd_ok_def)
  show ?case
  proof (cases "pt st mod 40 \<noteq> 0 \<or> gcd_ull (prd ?st') n = 1")
    case True
    obtain st'' where st'': "pollard_body n ?st' = Inr st''" "prd_ok n st''"
      using pollard_body_Inr [OF \<open>n \<noteq> 0\<close> ok'] by blast
    have "loop n st'' = Some r"
      using step.hyps True st''(1) by (simp add: Let_def)
    then show ?thesis
      using step.IH \<open>n \<noteq> 0\<close> st''(2) by blast
  next
    case False
    then have r: "r = Inr (gcd_ull (prd ?st') n)"
      using step.hyps by (simp add: Let_def)
    have "gcd_ull (prd ?st') n \<noteq> 1"
      using False by simp
    then show ?thesis
      using gcd_exit [OF ok'] r by blast
  qed
qed

lemma pollard_divisor:
  assumes "pollard n = Some r" "2 < n"
  shows "\<exists>d. r = Inr d \<and> unat d dvd unat n \<and> 1 < unat d \<and> unat d < unat n"
proof -
  have "n \<noteq> 0"
    using assms(2) by auto
  moreover have "prd_ok n pollard_init"
    using assms(2) by (simp add: prd_ok_def pollard_init_def)
  ultimately show ?thesis
    using assms(1) pollard_loop_divisor by (simp add: pollard_def)
qed

subsection \<open>The arithmetic primitives and \<open>pollard\<close>: claims C3, C9, C4 and C5\<close>

text \<open>
  C3. For all \<open>a\<close>, \<open>b\<close>, \<open>m\<close> with \<open>0 \<le> a, b < m\<close> and \<open>m \<le> 7.2 \<cdot> 10\<^sup>1\<^sup>8\<close>, \<open>modmul a b m\<close>
  returns normally, and its value is the remainder of the product \<open>a \<cdot> b\<close>, taken
  in the natural numbers (where nothing overflows), modulo \<open>m\<close>.
\<close>

theorem modmul_exact:
  assumes "unat a < unat m" and "unat b < unat m" and "unat m \<le> 7200000000000000000"
  shows "\<exists>r. modmul a b m = Inr r \<and> unat r = (unat a * unat b) mod unat m"
proof -
  have "m \<noteq> 0"
    using assms(1) by auto
  then show ?thesis
    by (rule modmul_Inr)
qed

theorem modmul_exact_witness:
  "unat (7199999999999999999 :: ull) < unat (7200000000000000000 :: ull)
   \<and> unat (7200000000000000000 :: ull) \<le> 7200000000000000000
   \<and> (\<exists>r. modmul 7199999999999999999 7199999999999999999 7200000000000000000 = Inr r
          \<and> unat r = 1)"
  using modmul_exact [of 7199999999999999999 7200000000000000000 7199999999999999999]
  by simp

text \<open>
  C9. For every modulus \<open>m > 0\<close> and all 64-bit \<open>a\<close>, \<open>b\<close>, with no assumption that
  they are below \<open>m\<close>, \<open>modmul a b m\<close> returns a value below \<open>m\<close>; and for every
  exponent \<open>e \<ge> 1\<close> and every base \<open>b\<close>, \<open>modpow b e m\<close> returns a value below \<open>m\<close>.
\<close>

theorem modmul_modpow_range:
  assumes "m \<noteq> 0"
  shows "(\<exists>r. modmul a b m = Inr r \<and> r < m)
         \<and> (e \<noteq> 0 \<longrightarrow> (\<exists>r. modpow b e m = Inr r \<and> r < m))"
proof
  have M0: "0 < unat m"
    using assms by (simp add: unat_gt_0)
  obtain r where r: "modmul a b m = Inr r" "unat r = (unat a * unat b) mod unat m"
    using modmul_Inr [OF assms] by blast
  have "unat r < unat m"
    using r(2) M0 by simp
  then show "\<exists>r. modmul a b m = Inr r \<and> r < m"
    using r(1) by (simp add: word_less_nat_alt)
  show "e \<noteq> 0 \<longrightarrow> (\<exists>r. modpow b e m = Inr r \<and> r < m)"
  proof
    assume e: "e \<noteq> 0"
    obtain p where p: "modpow b e m = Inr p" "unat p = unat b ^ unat e mod unat m"
      using modpow_Inr [OF assms, of b e] e by auto
    have "unat p < unat m"
      using p(2) M0 by simp
    then show "\<exists>r. modpow b e m = Inr r \<and> r < m"
      using p(1) by (simp add: word_less_nat_alt)
  qed
qed

theorem modmul_modpow_range_witness:
  "(7 :: ull) \<noteq> 0
   \<and> (\<exists>r. modmul 18446744073709551615 18446744073709551615 7 = Inr r \<and> r < 7)
   \<and> (5 :: ull) \<noteq> 0
   \<and> (\<exists>r. modpow 18446744073709551615 5 7 = Inr r \<and> r < 7)"
  using modmul_modpow_range [of 7 18446744073709551615 18446744073709551615 5]
  by simp

text \<open>
  C4, at the input where the code departs from it. The claim is that for every modulus
  \<open>m > 0\<close>, every base \<open>b < m\<close> and every exponent \<open>e \<ge> 0\<close>, \<open>modpow b e m\<close> is
  \<open>b\<^sup>e mod m\<close>, so that \<open>e = 0\<close> gives \<open>1 mod m\<close>. With \<open>m = 1\<close>, \<open>b = 0\<close> and \<open>e = 0\<close>
  the loop body never runs and \<open>modpow\<close> returns the initial value 1 of \<^verbatim>\<open>ans\<close>, which is
  not reduced: \<open>0\<^sup>0 mod 1 = 0\<close>, and 1 is not below the modulus.
\<close>

theorem modpow_modulus_one:
  "modpow 0 0 1 = Inr 1
   \<and> unat (0 :: ull) ^ unat (0 :: ull) mod unat (1 :: ull) = 0
   \<and> \<not> (1 :: ull) < 1"
  by (simp add: modpow_def modpow_loop.simps)

text \<open>
  C5. For every composite \<open>n > 1\<close>, whenever \<open>pollard n\<close> returns, it returns normally
  and its result \<open>d\<close> is a non-trivial divisor of \<open>n\<close>: \<open>d\<close> divides \<open>n\<close> and
  \<open>1 < d < n\<close>. The witness is the degenerate case \<open>n = 4\<close>.
\<close>

theorem pollard_nontrivial_divisor:
  assumes "1 < unat n" and "composite (unat n)" and "pollard n = Some r"
  shows "\<exists>d. r = Inr d \<and> unat d dvd unat n \<and> 1 < unat d \<and> unat d < unat n"
proof -
  obtain k where k: "2 \<le> k" "k < unat n"
    using assms(2) by (auto simp: composite_def)
  then have "unat (2 :: ull) < unat n"
    by simp
  then have "2 < n"
    by (simp only: word_less_nat_alt)
  then show ?thesis
    using assms(3) by (intro pollard_divisor)
qed

lemma composite_4: "composite 4"
  unfolding composite_def by (rule bexI [of _ 2]) simp_all

lemma pollard_4: "pollard 4 = Some (Inr 2)"
  by code_simp

theorem pollard_nontrivial_divisor_witness:
  "1 < unat (4 :: ull) \<and> composite (unat (4 :: ull)) \<and> pollard 4 = Some (Inr 2)
   \<and> (\<exists>d. (Inr 2 :: error + ull) = Inr d \<and> unat d dvd unat (4 :: ull) \<and> 1 < unat d
          \<and> unat d < unat (4 :: ull))"
  using pollard_nontrivial_divisor [of 4 "Inr 2"] composite_4 pollard_4
  by simp

subsection \<open>The witness loop of \<open>miller_rabin\<close>: claim C6\<close>

lemma mr_while_Inr:
  assumes "n \<noteq> 0"
  shows "\<exists>p' i'. mr_while n a p i = Inr (p', i')"
  using assms
proof (induction n a p i rule: mr_while.induct)
  case (1 n a p i)
  show ?case
  proof (cases "p \<noteq> 1 \<and> p \<noteq> n - 1 \<and> a mod n \<noteq> 0 \<and> i \<noteq> 0")
    case True
    obtain p' where p': "modmul p p n = Inr p'"
      using modmul_Inr [OF \<open>n \<noteq> 0\<close>] by blast
    have "mr_while n a p i = mr_while n a p' (i - 1)"
      using True p' by (subst mr_while.simps) simp
    moreover have "\<exists>q j. mr_while n a p' (i - 1) = Inr (q, j)"
      using "1.IH" [OF _ _ p' \<open>n \<noteq> 0\<close>] True by simp
    ultimately show ?thesis
      by simp
  next
    case False
    then show ?thesis
      by (subst mr_while.simps) auto
  qed
qed

lemma mr_while_skip: "a mod n = 0 \<Longrightarrow> mr_while n a p i = Inr (p, i)"
  by (subst mr_while.simps) simp

lemma mr_witness_Inr:
  assumes "n \<noteq> 0"
  shows "\<exists>ok. mr_witness n s d a = Inr ok"
proof -
  obtain p where p: "modpow (a mod n) d n = Inr p"
    using modpow_Inr [OF assms] by blast
  obtain p' i' where "mr_while n a p s = Inr (p', i')"
    using mr_while_Inr [OF assms] by blast
  then show ?thesis
    using p by (simp add: mr_witness_def)
qed

lemma mr_witness_skip:
  assumes "n \<noteq> 0" and "a mod n = 0"
  shows "mr_witness n s d a = Inr True"
proof -
  obtain p where p: "modpow (a mod n) d n = Inr p"
    using modpow_Inr [OF assms(1)] by blast
  have "mr_while n a p s = Inr (p, s)"
    using assms(2) by (rule mr_while_skip)
  then show ?thesis
    using p by (simp add: mr_witness_def)
qed

lemma mr_for_Inr:
  assumes "n \<noteq> 0"
  shows "\<exists>ok. mr_for n s d as = Inr ok"
proof (induction as)
  case Nil
  show ?case by (rule exI [of _ True]) simp
next
  case (Cons a as)
  obtain ok where "mr_witness n s d a = Inr ok"
    using mr_witness_Inr [OF assms] by blast
  then show ?case
    using Cons.IH by (cases ok) auto
qed

lemma miller_rabin_Inr: "\<exists>is_prime. miller_rabin n = Inr is_prime"
proof (cases "n < 2 \<or> n mod 6 mod 4 \<noteq> 1")
  case True
  then show ?thesis
    by (simp add: miller_rabin_def)
next
  case False
  then have "n \<noteq> 0"
    by auto
  then show ?thesis
    using False mr_for_Inr by (simp add: miller_rabin_def Let_def)
qed

lemma miller_rabin_2: "miller_rabin 2 = Inr True"
  by (simp add: miller_rabin_def)

text \<open>
  C6. For every \<open>n\<close> that reaches the witness loop of \<open>miller_rabin\<close> (the first test
  did not return) and every witness \<open>a\<close> of the fixed array with \<open>a mod n = 0\<close>, the
  pass of the loop body for \<open>a\<close> does not execute \<^verbatim>\<open>return 0\<close>, and the loop goes on to
  the witnesses after it.
\<close>

theorem witness_multiple_passes:
  assumes "\<not> (n < 2 \<or> n mod 6 mod 4 \<noteq> 1)" and "a \<in> set witnesses" and "a mod n = 0"
  shows "mr_witness n (of_nat (ctzll (n - 1))) (drop_bit (ctzll (n - 1)) n) a = Inr True
         \<and> mr_for n (of_nat (ctzll (n - 1))) (drop_bit (ctzll (n - 1)) n) (a # as)
             = mr_for n (of_nat (ctzll (n - 1))) (drop_bit (ctzll (n - 1)) n) as"
proof -
  have "n \<noteq> 0"
    using assms(1) by auto
  then have "mr_witness n (of_nat (ctzll (n - 1))) (drop_bit (ctzll (n - 1)) n) a = Inr True"
    using assms(3) by (rule mr_witness_skip)
  then show ?thesis
    by simp
qed

theorem witness_multiple_passes_witness:
  "\<not> ((5 :: ull) < 2 \<or> (5 :: ull) mod 6 mod 4 \<noteq> 1) \<and> (325 :: ull) \<in> set witnesses
   \<and> (325 :: ull) mod 5 = 0
   \<and> mr_witness 5 (of_nat (ctzll (5 - 1))) (drop_bit (ctzll (5 - 1)) 5) 325 = Inr True
   \<and> miller_rabin 5 = Inr True"
proof -
  have h: "\<not> ((5 :: ull) < 2 \<or> (5 :: ull) mod 6 mod 4 \<noteq> 1)" "(325 :: ull) \<in> set witnesses"
    "(325 :: ull) mod 5 = 0"
    by (simp_all add: witnesses_def)
  have "miller_rabin 5 = Inr True"
    by code_simp
  then show ?thesis
    using h witness_multiple_passes [OF h, of "[]"] by simp
qed

subsection \<open>Partial correctness of \<open>factor\<close>\<close>






subsection \<open>The results and the recursion of \<open>factor\<close>: claims C1, C10 and C7\<close>


lemma miller_rabin_0: "miller_rabin 0 = Inr False"
  by (simp add: miller_rabin_def)

lemma pollard_0: "pollard 0 = Some (Inl DivByZero)"
  by code_simp

lemma factor_0: "factor 0 = Some (Inl DivByZero)"
  by code_simp




text \<open>
  C10. \<open>factor 0\<close> returns no factor sequence. \<open>miller_rabin 0\<close> is false, so
  \<open>factor 0\<close> calls \<open>pollard 0\<close>; the first pass of its loop body computes \<^verbatim>\<open>f(2)\<close>, that
  is \<open>modmul 2 2 0\<close>, a remainder by zero; \<open>pollard 0\<close> and then \<open>factor 0\<close> end on that
  failure.
\<close>

theorem factor_zero_fails:
  "miller_rabin 0 = Inr False
   \<and> modmul 2 2 0 = Inl DivByZero
   \<and> pollard_body 0 (pollard_init\<lparr>pt := 31\<rparr>) = Inl DivByZero
   \<and> pollard 0 = Some (Inl DivByZero)
   \<and> factor 0 = Some (Inl DivByZero)
   \<and> (\<forall>fs. factor 0 \<noteq> Some (Inr fs))"
proof -
  have "pollard_restart 0 (pollard_init\<lparr>pt := 31\<rparr>) = Inl DivByZero"
    by (simp add: pollard_restart_def pollard_init_def pollard_f_def modmul_zero)
  then have "pollard_body 0 (pollard_init\<lparr>pt := 31\<rparr>) = Inl DivByZero"
    by (simp add: pollard_body_def)
  then show ?thesis
    using miller_rabin_0 pollard_0 factor_0 by (simp add: modmul_zero)
qed

lemma factor_calls_cases:
  assumes "m \<in> set (factor_calls n)"
  obtains x where "n \<noteq> 1" and "miller_rabin n = Inr False" and "pollard n = Some (Inr x)"
    and "m = x \<or> (m = n div x \<and> x \<noteq> 0)"
proof -
  have n1: "n \<noteq> 1"
    using assms by (auto simp: factor_calls_def)
  obtain is_prime where mr: "miller_rabin n = Inr is_prime"
    using miller_rabin_Inr by blast
  have np: "\<not> is_prime"
    using assms n1 mr by (auto simp: factor_calls_def)
  have calls: "factor_calls n =
      (case pollard n of
         None \<Rightarrow> []
       | Some (Inl err) \<Rightarrow> []
       | Some (Inr x) \<Rightarrow>
           (case factor x of
              Some (Inr l) \<Rightarrow> if x = 0 then [x] else [x, n div x]
            | _ \<Rightarrow> [x]))"
    using n1 mr np by (simp add: factor_calls_def)
  show thesis
  proof (cases "pollard n")
    case None
    then show thesis
      using assms calls by simp
  next
    case (Some rx)
    show thesis
    proof (cases rx)
      case (Inl err)
      then show thesis
        using assms calls Some by simp
    next
      case (Inr x)
      then have "m \<in> set (case factor x of
              Some (Inr l) \<Rightarrow> if x = 0 then [x] else [x, n div x]
            | _ \<Rightarrow> [x])"
        using assms calls Some by simp
      then have "m = x \<or> (m = n div x \<and> x \<noteq> 0)"
        by (cases "factor x") (auto split: sum.splits if_splits)
      then show thesis
        using that n1 mr np Some Inr by simp
    qed
  qed
qed

lemma factor_calls_bound:
  assumes "n \<noteq> 0" and "m \<in> set (factor_calls n)"
  shows "unat m dvd unat n \<and> 2 \<le> unat m \<and> 2 * unat m \<le> unat n"
proof -
  obtain x where n1: "n \<noteq> 1" and mr: "miller_rabin n = Inr False"
    and px: "pollard n = Some (Inr x)" and m: "m = x \<or> (m = n div x \<and> x \<noteq> 0)"
    using assms(2) by (rule factor_calls_cases)
  have "n \<noteq> 2"
    using mr miller_rabin_2 by auto
  then have "unat n \<noteq> 2" "unat n \<noteq> 1" "unat n \<noteq> 0"
    using n1 assms(1) by (simp_all add: word_unat_eq_iff)
  then have "unat (2 :: ull) < unat n"
    by simp
  then have n2: "2 < n"
    by (simp only: word_less_nat_alt)
  have x: "unat x dvd unat n" "1 < unat x" "unat x < unat n"
    using pollard_divisor [OF px n2] by auto
  then obtain k where k: "unat n = unat x * k"
    by (auto simp: dvd_def)
  then have k2: "2 \<le> k"
    using x(2,3) by (cases "k = 0 \<or> k = 1") auto
  have q: "unat (n div x) = k"
    using k x(2) by (simp add: unat_div)
  from m show ?thesis
  proof
    assume "m = x"
    moreover have "2 * unat x \<le> unat x * k"
      using k2 by simp
    ultimately show ?thesis
      using x k by simp
  next
    assume "m = n div x \<and> x \<noteq> 0"
    moreover have "2 * k \<le> unat x * k"
      using x(2) by simp
    ultimately show ?thesis
      using q k k2 by simp
  qed
qed

lemma call_chain_growth:
  "call_chain (n # m # ns) \<Longrightarrow> n \<noteq> 0 \<Longrightarrow> 2 ^ (length (m # ns) + 1) \<le> unat n"
proof (induction ns arbitrary: n m)
  case Nil
  then have "2 \<le> unat m \<and> 2 * unat m \<le> unat n"
    using factor_calls_bound [of n m] by simp
  then show ?case
    by simp
next
  case (Cons k ks)
  have m: "2 \<le> unat m \<and> 2 * unat m \<le> unat n"
    using Cons.prems factor_calls_bound [of n m] by simp
  then have "m \<noteq> 0"
    by auto
  then have "2 ^ (length (k # ks) + 1) \<le> unat m"
    using Cons.IH [of m k] Cons.prems(1) by simp
  then have "2 * 2 ^ (length (k # ks) + 1) \<le> unat n"
    using m by linarith
  then show ?case
    by simp
qed

text \<open>
  C7. For every \<open>n \<ge> 1\<close>, every recursive call that the body of \<^verbatim>\<open>factor(n)\<close> makes is
  on a proper divisor of \<open>n\<close> that is at least 2. Therefore a chain of nested calls
  that starts at \<^verbatim>\<open>factor(n)\<close> and goes \<open>k\<close> calls deep needs \<open>2\<^sup>k \<le> n\<close>, which is the
  bound \<open>O(log n)\<close>, and no chain has more than 63 members: the recursion depth is at
  most 63.
\<close>

theorem factor_recursion_depth:
  assumes "1 \<le> unat n" and "call_chain (n # ns)"
  shows "(\<forall>m \<in> set (factor_calls n). unat m dvd unat n \<and> 2 \<le> unat m \<and> unat m < unat n)
         \<and> 2 ^ length ns \<le> unat n
         \<and> length (n # ns) \<le> 63"
proof (intro conjI)
  have n0: "n \<noteq> 0"
    using assms(1) by auto
  show "\<forall>m \<in> set (factor_calls n). unat m dvd unat n \<and> 2 \<le> unat m \<and> unat m < unat n"
  proof
    fix m
    assume "m \<in> set (factor_calls n)"
    then have "unat m dvd unat n \<and> 2 \<le> unat m \<and> 2 * unat m \<le> unat n"
      using n0 by (intro factor_calls_bound)
    then show "unat m dvd unat n \<and> 2 \<le> unat m \<and> unat m < unat n"
      by auto
  qed
  show log: "2 ^ length ns \<le> unat n"
  proof (cases ns)
    case Nil
    then show ?thesis
      using assms(1) by simp
  next
    case (Cons m ms)
    then have "(2 :: nat) ^ (length ns + 1) \<le> unat n"
      using call_chain_growth [of n m ms] assms(2) n0 by simp
    then show ?thesis
      by simp
  qed
  have "unat n < 2 ^ 64"
    using unsigned_less [of n] by simp
  with log have "(2 :: nat) ^ length ns < 2 ^ 64"
    by (rule le_less_trans)
  then have "length ns < 64"
    by (rule power_less_imp_less_exp [rotated]) simp
  moreover have "length ns \<noteq> 63"
  proof
    assume l: "length ns = 63"
    then obtain m ms where ns: "ns = m # ms"
      by (cases ns) auto
    have "(2 :: nat) ^ (length ns + 1) \<le> unat n"
      using call_chain_growth [of n m ms] assms(2) n0 ns by simp
    then have "(2 :: nat) ^ 64 \<le> unat n"
      using l by simp
    then show False
      using \<open>unat n < 2 ^ 64\<close> by simp
  qed
  ultimately show "length (n # ns) \<le> 63"
    by simp
qed

lemma factor_calls_2299: "factor_calls 2299 = [209, 11]"
  by code_simp

lemma factor_calls_209: "factor_calls 209 = [11, 19]"
  by code_simp

theorem factor_recursion_depth_witness:
  "1 \<le> unat (2299 :: ull) \<and> call_chain [2299, 209, 11]
   \<and> factor_calls 2299 = [209, 11]
   \<and> unat (209 :: ull) dvd unat (2299 :: ull) \<and> 2 \<le> unat (209 :: ull)
   \<and> unat (209 :: ull) < unat (2299 :: ull)
   \<and> unat (11 :: ull) dvd unat (2299 :: ull) \<and> 2 \<le> unat (11 :: ull)
   \<and> unat (11 :: ull) < unat (2299 :: ull)
   \<and> 2 ^ length [209, 11 :: ull] \<le> unat (2299 :: ull)
   \<and> length [2299, 209, 11 :: ull] \<le> 63"
proof -
  have h: "1 \<le> unat (2299 :: ull)" "call_chain [2299, 209, 11]"
    by (simp_all add: factor_calls_2299 factor_calls_209)
  show ?thesis
    using h factor_recursion_depth [OF h] by (simp add: factor_calls_2299)
qed

subsection \<open>Runs of \<open>factor\<close>: claim C8\<close>










end
